theory Spec2Isabelle
  imports Complex_Main "HOL-Library.AList"
begin

section \<open>Python values and exceptions\<close>

text \<open>
  The exceptions the modelled functions can raise. A function that can raise returns
  \<open>(error + 'a) \<times> state\<close>: the outcome (\<open>Inl\<close> the exception) and the state as
  the function left it when it returned or raised.
\<close>

datatype error =
    TypeError
  | AttributeError
  | KeyError
  | ValueError
  | ResponseError
  | DataError
  | DatabaseError
  | HTTPException nat
  | CommitError

text \<open>A WebSocket is an opaque handle.\<close>

type_synonym websocket = nat

section \<open>The connection registry (app/websockets/server.py)\<close>

text \<open>
  \<open>ConnectionManager\<close> holds two dictionaries keyed by user id. A Python dictionary
  keeps its keys in insertion order and \<open>broadcast\<close> iterates one, so both are
  association lists: \<open>d[k] = v\<close> is \<open>AList.update\<close> (in place for a key that
  exists, appended otherwise), \<open>del d[k]\<close> is \<open>AList.delete\<close>, \<open>d[k]\<close> is
  \<open>map_of\<close> (\<open>KeyError\<close> on \<open>None\<close>).
\<close>

record ConnectionManager =
  active_connections :: "(int \<times> websocket set) list"
  user_channels :: "(int \<times> string set) list"

definition init_manager :: ConnectionManager where
  "init_manager = \<lparr>active_connections = [], user_channels = []\<rparr>"

text \<open>
  What each WebSocket has been sent, oldest first: the effect of \<open>send_json\<close>.
  Sends are taken to succeed.
\<close>

type_synonym 'msg wire = "websocket \<Rightarrow> 'msg list"

text \<open>Python truthiness of an \<open>Optional[str]\<close>: \<open>None\<close> and the empty string are false.\<close>

fun truthy_str :: "string option \<Rightarrow> bool" where
  "truthy_str None = False"
| "truthy_str (Some c) = (c \<noteq> [])"

text \<open>
  \<open>connect\<close>: a user id that is new gets an empty set in both dictionaries; the
  WebSocket joins the user's set; a truthy channel joins the user's channel set
  (\<open>KeyError\<close>, after the WebSocket was added, if that dictionary lacks the user).
\<close>

definition connect ::
  "ConnectionManager \<Rightarrow> websocket \<Rightarrow> int \<Rightarrow> string option \<Rightarrow> (error + unit) \<times> ConnectionManager"
where
  "connect m websocket user_id channel =
     (let m1 = (if map_of (active_connections m) user_id = None
                then m\<lparr>active_connections := AList.update user_id {} (active_connections m),
                       user_channels := AList.update user_id {} (user_channels m)\<rparr>
                else m);
          m2 = (case map_of (active_connections m1) user_id of
                  None \<Rightarrow> m1
                | Some conns \<Rightarrow>
                    m1\<lparr>active_connections :=
                         AList.update user_id (insert websocket conns) (active_connections m1)\<rparr>)
      in if truthy_str channel
         then (case map_of (user_channels m2) user_id of
                 None \<Rightarrow> (Inl KeyError, m2)
               | Some chans \<Rightarrow>
                   (Inr (), m2\<lparr>user_channels :=
                                AList.update user_id (insert (the channel) chans) (user_channels m2)\<rparr>))
         else (Inr (), m2))"

text \<open>
  \<open>disconnect\<close>: \<open>self.active_connections[user_id].remove(websocket)\<close> raises
  \<open>KeyError\<close> for an unknown user and for a WebSocket that is not in the set; a set
  left empty is deleted together with the user's channel set.
\<close>

definition disconnect ::
  "ConnectionManager \<Rightarrow> websocket \<Rightarrow> int \<Rightarrow> (error + unit) \<times> ConnectionManager"
where
  "disconnect m websocket user_id =
     (case map_of (active_connections m) user_id of
        None \<Rightarrow> (Inl KeyError, m)
      | Some conns \<Rightarrow>
          if websocket \<notin> conns then (Inl KeyError, m)
          else
            (let m1 = m\<lparr>active_connections :=
                          AList.update user_id (conns - {websocket}) (active_connections m)\<rparr>
             in if conns - {websocket} = {}
                then (let m2 = m1\<lparr>active_connections := AList.delete user_id (active_connections m1)\<rparr>
                      in case map_of (user_channels m2) user_id of
                           None \<Rightarrow> (Inl KeyError, m2)
                         | Some _ \<Rightarrow>
                             (Inr (), m2\<lparr>user_channels := AList.delete user_id (user_channels m2)\<rparr>))
                else (Inr (), m1)))"

text \<open>
  \<open>send_personal_message\<close>: every WebSocket of the user is sent the message; a user
  without an entry is skipped.
\<close>

definition send_personal_message ::
  "ConnectionManager \<Rightarrow> 'msg \<Rightarrow> int \<Rightarrow> 'msg wire \<Rightarrow> 'msg wire"
where
  "send_personal_message m message user_id wire =
     (case map_of (active_connections m) user_id of
        None \<Rightarrow> wire
      | Some conns \<Rightarrow> (\<lambda>w. if w \<in> conns then wire w @ [message] else wire w))"

text \<open>
  \<open>broadcast\<close>: the loop over \<open>self.user_channels.items()\<close>, with the test
  \<open>not channel or channel in channels\<close>.
\<close>

fun broadcast_loop ::
  "ConnectionManager \<Rightarrow> 'msg \<Rightarrow> string option \<Rightarrow> (int \<times> string set) list \<Rightarrow> 'msg wire \<Rightarrow> 'msg wire"
where
  "broadcast_loop m message channel [] wire = wire"
| "broadcast_loop m message channel ((user_id, channels) # rest) wire =
     broadcast_loop m message channel rest
       (if \<not> truthy_str channel \<or> the channel \<in> channels
        then send_personal_message m message user_id wire
        else wire)"

definition broadcast ::
  "ConnectionManager \<Rightarrow> 'msg \<Rightarrow> string option \<Rightarrow> 'msg wire \<Rightarrow> 'msg wire"
where
  "broadcast m message channel wire = broadcast_loop m message channel (user_channels m) wire"

text \<open>
  Derived notions used to state the properties. \<open>receives m u w\<close>: WebSocket \<open>w\<close> is
  in the connection set registered for user \<open>u\<close>. \<open>selected m channel w ucs\<close>: the
  entries of the channel dictionary for which \<open>broadcast\<close> sends to \<open>w\<close>.
\<close>

definition receives :: "ConnectionManager \<Rightarrow> int \<Rightarrow> websocket \<Rightarrow> bool" where
  "receives m user_id w =
     (case map_of (active_connections m) user_id of None \<Rightarrow> False | Some conns \<Rightarrow> w \<in> conns)"

definition selected ::
  "ConnectionManager \<Rightarrow> string option \<Rightarrow> websocket \<Rightarrow> (int \<times> string set) list \<Rightarrow> (int \<times> string set) list"
where
  "selected m channel w ucs =
     filter (\<lambda>(u, channels). (\<not> truthy_str channel \<or> the channel \<in> channels) \<and> receives m u w) ucs"

text \<open>
  \<open>sole_owner m w u\<close>: no user other than \<open>u\<close> has WebSocket \<open>w\<close> in its
  connection set. Every handler registers a WebSocket once, under the id of its user.
\<close>

definition sole_owner :: "ConnectionManager \<Rightarrow> websocket \<Rightarrow> int \<Rightarrow> bool" where
  "sole_owner m w user_id =
     list_all (\<lambda>(u, conns). u = user_id \<or> w \<notin> conns) (active_connections m)"

definition empty_wire :: "'msg wire" where
  "empty_wire = (\<lambda>w. [])"

text \<open>
  A registry used in the examples: user 7 has two WebSockets (1 and 2) and is subscribed to
  \<open>leaderboard\<close>; user 8 has WebSocket 3 and no subscription.
\<close>

definition example_registry :: ConnectionManager where
  "example_registry =
     \<lparr>active_connections = [(7, {1, 2}), (8, {3})],
      user_channels = [(7, {''leaderboard''}), (8, {})]\<rparr>"


text \<open>
  The registry invariant: the two dictionaries have the same keys (each once, as in any
  dictionary) and no user is kept with an empty set of connections.
\<close>

definition registry_inv :: "ConnectionManager \<Rightarrow> bool" where
  "registry_inv m \<longleftrightarrow>
     distinct (map fst (active_connections m)) \<and>
     distinct (map fst (user_channels m)) \<and>
     set (map fst (active_connections m)) = set (map fst (user_channels m)) \<and>
     (\<forall>(u, conns) \<in> set (active_connections m). conns \<noteq> {})"

section \<open>Formatting integers into keys\<close>

text \<open>
  \<open>str(n)\<close> and the \<open>{n}\<close> of an f-string: the decimal digits, with a minus sign for a
  negative number.
\<close>

definition digit_char :: "nat \<Rightarrow> char" where
  "digit_char d = ''0123456789'' ! d"

function str_nat :: "nat \<Rightarrow> string" where
  "str_nat n = (if n < 10 then [digit_char n] else str_nat (n div 10) @ [digit_char (n mod 10)])"
  by pat_completeness auto
termination
  by (relation "measure id") auto

declare str_nat.simps [simp del]

definition str_int :: "int \<Rightarrow> string" where
  "str_int i = (if i < 0 then CHR ''-'' # str_nat (nat (- i)) else str_nat (nat i))"

section \<open>The cache service (app/core/cache.py)\<close>

text \<open>
  The rows of the \<open>user\<close> table that the leaderboard reads, and an entry of a leaderboard
  page as \<open>get_global_leaderboard\<close> builds it.
\<close>

record user =
  u_id :: int
  u_username :: string
  u_total_score :: int
  u_rating :: real
  u_puzzles_solved :: int
  u_win_streak :: int

record leaderboard_entry =
  le_user_id :: int
  le_username :: string
  le_total_score :: int
  le_rank :: int
  le_rating :: real
  le_puzzles_solved :: int
  le_win_streak :: int

text \<open>
  What \<open>cache.get\<close> returns: the string at the key (the pool decodes responses), here a
  decimal integer (what \<open>INCR\<close> writes) or a text that is not one.
\<close>

datatype cached = CInt int | CText string

text \<open>
  What the code hands to \<open>cache.set\<close>: a Python value. The Redis client encodes an
  integer or a string and raises \<open>DataError\<close> for a value of any other type, such as the
  list of dictionaries that the leaderboard handlers pass. A \<open>VText\<close> is a text that is
  not a decimal integer.
\<close>

datatype pyvalue = VInt int | VText string | VBoard "leaderboard_entry list"

text \<open>
  Redis has one key space. A key holds a string value with an optional expiry time, or a
  sorted set (member to score). The clock is a parameter \<open>now\<close>, in seconds.
\<close>

datatype redis_entry = StringEntry cached "nat option" | ZSetEntry "string \<rightharpoonup> int"

type_synonym redis = "string \<rightharpoonup> redis_entry"

definition empty_redis :: redis where
  "empty_redis = Map.empty"

text \<open>\<open>live r now key\<close>: the entry of a key, unless it has expired.\<close>

definition live :: "redis \<Rightarrow> nat \<Rightarrow> string \<Rightarrow> redis_entry option" where
  "live r now key =
     (case r key of
        Some (StringEntry v (Some t)) \<Rightarrow> if now < t then Some (StringEntry v (Some t)) else None
      | other \<Rightarrow> other)"

text \<open>
  \<open>CacheService.set(key, value, expire)\<close>: \<open>SET key value EX expire\<close>, after the
  client has encoded the value.
\<close>

definition CacheService_set ::
  "redis \<Rightarrow> nat \<Rightarrow> string \<Rightarrow> pyvalue \<Rightarrow> nat \<Rightarrow> (error + unit) \<times> redis"
where
  "CacheService_set r now key v expire =
     (case v of
        VInt n \<Rightarrow> (Inr (), r(key \<mapsto> StringEntry (CInt n) (Some (now + expire))))
      | VText t \<Rightarrow> (Inr (), r(key \<mapsto> StringEntry (CText t) (Some (now + expire))))
      | VBoard b \<Rightarrow> (Inl DataError, r))"

text \<open>\<open>CacheService.get(key)\<close>: \<open>GET\<close>; a key that holds a sorted set is an error.\<close>

definition CacheService_get :: "redis \<Rightarrow> nat \<Rightarrow> string \<Rightarrow> error + cached option" where
  "CacheService_get r now key =
     (case live r now key of
        None \<Rightarrow> Inr None
      | Some (StringEntry v t) \<Rightarrow> Inr (Some v)
      | Some (ZSetEntry z) \<Rightarrow> Inl ResponseError)"

text \<open>
  \<open>CacheService.delete(key)\<close>: \<open>DEL key\<close> removes the key of exactly that name; \<open>DEL\<close>
  matches no pattern.
\<close>

definition CacheService_delete :: "redis \<Rightarrow> string \<Rightarrow> redis" where
  "CacheService_delete r key = r(key := None)"

text \<open>
  \<open>CacheService.increment(key)\<close>: \<open>INCR key\<close> adds one to the integer at the key (zero
  when the key is absent) and returns it; it keeps the expiry. The integer is a signed 64-bit
  number: a value outside that range, or an increment past its largest value, is an error,
  as is a value that is not an integer.
\<close>

definition CacheService_increment :: "redis \<Rightarrow> nat \<Rightarrow> string \<Rightarrow> (error + int) \<times> redis" where
  "CacheService_increment r now key =
     (case live r now key of
        None \<Rightarrow> (Inr 1, r(key \<mapsto> StringEntry (CInt 1) None))
      | Some (StringEntry (CInt n) t) \<Rightarrow>
          if - (2 ^ 63) \<le> n \<and> n < 2 ^ 63 - 1
          then (Inr (n + 1), r(key \<mapsto> StringEntry (CInt (n + 1)) t))
          else (Inl ResponseError, r)
      | Some other \<Rightarrow> (Inl ResponseError, r))"

text \<open>
  A call \<open>cache.increment(...)\<close> with its positional arguments. The method is declared
  \<open>increment(self, key: str)\<close>: with any other number of arguments Python raises
  \<open>TypeError\<close> before the body runs.
\<close>

datatype pyarg = PStr string | PInt int

definition call_increment :: "redis \<Rightarrow> nat \<Rightarrow> pyarg list \<Rightarrow> (error + int) \<times> redis" where
  "call_increment r now args =
     (case args of
        [PStr key] \<Rightarrow> CacheService_increment r now key
      | _ \<Rightarrow> (Inl TypeError, r))"

text \<open>
  \<open>CacheService.add_to_sorted_set(key, score, member)\<close>: \<open>ZADD key score member\<close> sets the
  member's score to the one given.
\<close>

definition CacheService_add_to_sorted_set ::
  "redis \<Rightarrow> nat \<Rightarrow> string \<Rightarrow> int \<Rightarrow> string \<Rightarrow> (error + unit) \<times> redis"
where
  "CacheService_add_to_sorted_set r now key score member =
     (case live r now key of
        None \<Rightarrow> (Inr (), r(key \<mapsto> ZSetEntry (Map.empty(member \<mapsto> score))))
      | Some (ZSetEntry z) \<Rightarrow> (Inr (), r(key \<mapsto> ZSetEntry (z(member \<mapsto> score))))
      | Some (StringEntry v t) \<Rightarrow> (Inl ResponseError, r))"

text \<open>The score of a member of a sorted set, for stating properties (\<open>ZSCORE\<close>).\<close>

definition zscore :: "redis \<Rightarrow> string \<Rightarrow> string \<Rightarrow> int option" where
  "zscore r key member = (case r key of Some (ZSetEntry z) \<Rightarrow> z member | _ \<Rightarrow> None)"

text \<open>
  The methods \<open>CacheService\<close> defines. \<open>cache.py\<close> has no \<open>get_sorted_set_rank\<close>: the
  attribute lookup \<open>cache.get_sorted_set_rank\<close> raises \<open>AttributeError\<close>. The method is
  therefore an optional parameter of its caller below, and the class provides none.
\<close>

type_synonym rank_method = "redis \<Rightarrow> nat \<Rightarrow> string \<Rightarrow> string \<Rightarrow> nat option"

definition CacheService_get_sorted_set_rank :: "rank_method option" where
  "CacheService_get_sorted_set_rank = None"

section \<open>Updating the leaderboard from a solved puzzle (app/api/v1/endpoints/puzzles.py)\<close>

text \<open>
  \<open>update_leaderboard(user_id, points, redis)\<close> of \<open>puzzles.py\<close>: the background task
  that \<open>submit_attempt\<close> schedules.
\<close>

definition puzzles_update_leaderboard :: "int \<Rightarrow> int \<Rightarrow> redis \<Rightarrow> nat \<Rightarrow> (error + unit) \<times> redis" where
  "puzzles_update_leaderboard user_id points r now =
     (case call_increment r now [PStr (''user_score:'' @ str_int user_id), PInt points] of
        (Inl e, r1) \<Rightarrow> (Inl e, r1)
      | (Inr _, r1) \<Rightarrow> CacheService_add_to_sorted_set r1 now ''leaderboard'' points (str_int user_id))"

text \<open>
  Deltas applied one after the other, each as a task of its own: a task that raises leaves
  the store as it was when it raised, and the next task runs on that store.
\<close>

fun apply_deltas :: "int \<Rightarrow> int list \<Rightarrow> redis \<Rightarrow> nat \<Rightarrow> redis" where
  "apply_deltas user_id [] r now = r"
| "apply_deltas user_id (points # rest) r now =
     apply_deltas user_id rest (snd (puzzles_update_leaderboard user_id points r now)) now"

section \<open>The leaderboard endpoints (app/api/v1/endpoints/leaderboard.py)\<close>

record user_data =
  ud_user_id :: int
  ud_score :: int
  ud_rank :: "nat option"

datatype message = ScoreUpdate user_data | CategoryUpdate string user_data

text \<open>Python truthiness of what \<open>cache.get\<close> returns.\<close>

fun truthy_cached :: "cached option \<Rightarrow> bool" where
  "truthy_cached None = False"
| "truthy_cached (Some (CInt n)) = True"
| "truthy_cached (Some (CText t)) = (t \<noteq> [])"

text \<open>\<open>int(score)\<close> of a cached value.\<close>

fun int_of_cached :: "cached \<Rightarrow> error + int" where
  "int_of_cached (CInt n) = Inr n"
| "int_of_cached (CText t) = Inl ValueError"

text \<open>
  \<open>get_user_leaderboard_data(user_id, redis)\<close>, with the method bound to
  \<open>cache.get_sorted_set_rank\<close> as a parameter (\<open>None\<close>: the class has no such
  attribute). The result is \<open>score\<close> as an integer, or 0 when it is not truthy, and
  \<open>rank + 1\<close>, or \<open>None\<close> when the rank is \<open>None\<close>.
\<close>

definition get_user_leaderboard_data_with ::
  "rank_method option \<Rightarrow> int \<Rightarrow> redis \<Rightarrow> nat \<Rightarrow> error + user_data"
where
  "get_user_leaderboard_data_with get_sorted_set_rank user_id r now =
     (case CacheService_get r now (''user_score:'' @ str_int user_id) of
        Inl e \<Rightarrow> Inl e
      | Inr score \<Rightarrow>
          (case get_sorted_set_rank of
             None \<Rightarrow> Inl AttributeError
           | Some method \<Rightarrow>
               (let rank = method r now ''leaderboard'' (str_int user_id)
                in case (if truthy_cached score then int_of_cached (the score) else Inr 0) of
                     Inl e \<Rightarrow> Inl e
                   | Inr sc \<Rightarrow>
                       Inr \<lparr>ud_user_id = user_id, ud_score = sc,
                            ud_rank = (case rank of None \<Rightarrow> None | Some k \<Rightarrow> Some (k + 1))\<rparr>)))"

definition get_user_leaderboard_data :: "int \<Rightarrow> redis \<Rightarrow> nat \<Rightarrow> error + user_data" where
  "get_user_leaderboard_data = get_user_leaderboard_data_with CacheService_get_sorted_set_rank"

text \<open>
  \<open>update_leaderboard(user_id, points, category, redis)\<close> of \<open>leaderboard.py\<close>. It
  reads the registry and writes to the store and to the WebSockets.
\<close>

definition update_leaderboard ::
  "int \<Rightarrow> int \<Rightarrow> string option \<Rightarrow> ConnectionManager \<Rightarrow> redis \<Rightarrow> message wire \<Rightarrow> nat
    \<Rightarrow> (error + unit) \<times> redis \<times> message wire"
where
  "update_leaderboard user_id points category m r wire now =
     (case call_increment r now [PStr (''user_score:'' @ str_int user_id), PInt points] of
        (Inl e, r1) \<Rightarrow> (Inl e, r1, wire)
      | (Inr _, r1) \<Rightarrow>
     (case (if truthy_str category
            then call_increment r1 now
                   [PStr (''user_category_score:'' @ the category @ '':'' @ str_int user_id),
                    PInt points]
            else (Inr 0, r1)) of
        (Inl e, r2) \<Rightarrow> (Inl e, r2, wire)
      | (Inr _, r2) \<Rightarrow>
     (let r3 = CacheService_delete r2 ''global_leaderboard:*'';
          r4 = (if truthy_str category
                then CacheService_delete r3 (''category_leaderboard:'' @ the category @ '':*'')
                else r3)
      in case get_user_leaderboard_data user_id r4 now of
           Inl e \<Rightarrow> (Inl e, r4, wire)
         | Inr data \<Rightarrow>
             (let wire1 = broadcast m (ScoreUpdate data) (Some ''leaderboard'') wire;
                  wire2 = (if truthy_str category
                           then broadcast m (CategoryUpdate (the category) data)
                                  (Some (''leaderboard_category_'' @ the category)) wire1
                           else wire1)
              in (Inr (), r4, wire2)))))"

text \<open>
  The query of \<open>get_global_leaderboard\<close>,
  \<open>db.query(User).order_by(User.total_score.desc()).offset(skip).limit(limit).all()\<close>.
  The session \<open>db\<close> is a parameter of the handler: it answers the query for a given
  \<open>skip\<close> and \<open>limit\<close> with rows or with an exception.
\<close>

type_synonym session = "int \<Rightarrow> int \<Rightarrow> error + user list"

text \<open>
  A session on a database that holds a given table. The order of rows with equal scores is
  that of a stable sort. This database rejects a negative \<open>OFFSET\<close> or \<open>LIMIT\<close>.
\<close>

definition order_by_total_score_desc :: "user list \<Rightarrow> user list" where
  "order_by_total_score_desc us = sort_key (\<lambda>u. - u_total_score u) us"

definition query_page :: "nat \<Rightarrow> nat \<Rightarrow> user list \<Rightarrow> user list" where
  "query_page skip limit us = take limit (drop skip (order_by_total_score_desc us))"

definition table_session :: "user list \<Rightarrow> session" where
  "table_session us skip limit =
     (if skip < 0 \<or> limit < 0 then Inl DatabaseError
      else Inr (query_page (nat skip) (nat limit) us))"

text \<open>The loop \<open>for rank, user in enumerate(users, start=skip + 1)\<close>.\<close>

fun enumerate_entries :: "int \<Rightarrow> user list \<Rightarrow> leaderboard_entry list" where
  "enumerate_entries rank [] = []"
| "enumerate_entries rank (u # us) =
     \<lparr>le_user_id = u_id u, le_username = u_username u, le_total_score = u_total_score u,
      le_rank = rank, le_rating = u_rating u, le_puzzles_solved = u_puzzles_solved u,
      le_win_streak = u_win_streak u\<rparr> # enumerate_entries (rank + 1) us"

definition global_cache_key :: "int \<Rightarrow> int \<Rightarrow> string" where
  "global_cache_key skip limit = ''global_leaderboard:'' @ str_int skip @ '':'' @ str_int limit"

text \<open>
  What the handler returns: the string it found in the cache, or the page it built.
\<close>

datatype response = FromCache cached | Built "leaderboard_entry list"

text \<open>
  The part of \<open>get_global_leaderboard\<close> after a cache miss: the query, the loop that builds
  the page, \<open>cache.set(cache_key, leaderboard, expire=300)\<close>, and the return of the page.
\<close>

definition leaderboard_recompute ::
  "int \<Rightarrow> int \<Rightarrow> session \<Rightarrow> redis \<Rightarrow> nat \<Rightarrow> (error + leaderboard_entry list) \<times> redis"
where
  "leaderboard_recompute skip limit db r now =
     (case db skip limit of
        Inl e \<Rightarrow> (Inl e, r)
      | Inr users \<Rightarrow>
          (let leaderboard = enumerate_entries (skip + 1) users
           in case CacheService_set r now (global_cache_key skip limit) (VBoard leaderboard) 300 of
                (Inl e, r') \<Rightarrow> (Inl e, r')
              | (Inr _, r') \<Rightarrow> (Inr leaderboard, r')))"

text \<open>\<open>get_global_leaderboard(skip, limit, db, redis)\<close>.\<close>

definition get_global_leaderboard ::
  "int \<Rightarrow> int \<Rightarrow> session \<Rightarrow> redis \<Rightarrow> nat \<Rightarrow> (error + response) \<times> redis"
where
  "get_global_leaderboard skip limit db r now =
     (case CacheService_get r now (global_cache_key skip limit) of
        Inl e \<Rightarrow> (Inl e, r)
      | Inr cached_data \<Rightarrow>
          if truthy_cached cached_data then (Inr (FromCache (the cached_data)), r)
          else (case leaderboard_recompute skip limit db r now of
                  (Inl e, r') \<Rightarrow> (Inl e, r')
                | (Inr leaderboard, r') \<Rightarrow> (Inr (Built leaderboard), r')))"

text \<open>The number of rows whose total score is strictly greater than a given score.\<close>

definition strictly_greater :: "user list \<Rightarrow> int \<Rightarrow> nat" where
  "strictly_greater us s = length (filter (\<lambda>u. s < u_total_score u) us)"

section \<open>Example data\<close>

text \<open>
  A table with the scores 0, 50 and 200, and a store in which the first page of the global
  leaderboard is cached as a string.
\<close>

definition mk_user :: "int \<Rightarrow> string \<Rightarrow> int \<Rightarrow> user" where
  "mk_user i name score =
     \<lparr>u_id = i, u_username = name, u_total_score = score, u_rating = 1500,
      u_puzzles_solved = 0, u_win_streak = 0\<rparr>"

definition users_before :: "user list" where
  "users_before = [mk_user 1 ''ann'' 0, mk_user 2 ''bob'' 50, mk_user 3 ''cy'' 200]"

definition cached_page_store :: redis where
  "cached_page_store =
     empty_redis(''global_leaderboard:0:100'' \<mapsto> StringEntry (CText ''cy 200, bob 50, ann 0'') None)"

section \<open>Submitting an attempt (app/api/v1/endpoints/puzzles.py)\<close>

text \<open>The tables \<open>submit_attempt\<close> reads and writes, with the columns it uses.\<close>

record puzzle =
  p_id :: int
  p_points :: int
  p_times_solved :: int
  p_success_rate :: real

record puzzle_attempt =
  a_user_id :: int
  a_puzzle_id :: int
  a_solution_submitted :: string
  a_is_correct :: bool
  a_time_taken :: "real option"
  a_points_earned :: int

record database =
  db_users :: "user list"
  db_puzzles :: "puzzle list"
  db_attempts :: "puzzle_attempt list"

text \<open>
  \<open>puzzle.attempts\<close> is a plain relationship (\<open>app/models/puzzle.py\<close>), so it is a list,
  and \<open>list.count\<close> takes exactly one argument: the call \<open>puzzle.attempts.count()\<close> raises
  \<open>TypeError\<close>. A call is given with its positional arguments.
\<close>

definition list_count :: "'a list \<Rightarrow> 'a list \<Rightarrow> error + nat" where
  "list_count xs args = (case args of [x] \<Rightarrow> Inr (count_list xs x) | _ \<Rightarrow> Inl TypeError)"

definition attempts_count :: "puzzle_attempt list \<Rightarrow> error + nat" where
  "attempts_count attempts = list_count attempts []"

text \<open>
  \<open>submit_attempt\<close>, with the evaluation of \<open>puzzle.attempts.count()\<close> as a parameter
  \<open>count_call\<close>. Two collaborators are parameters as well: \<open>validation\<close> is what
  \<open>PuzzleValidator.validate_solution\<close> returns or raises, and \<open>commit_ok\<close> tells whether
  \<open>db.commit()\<close> succeeds. The changes made before the commit are changes of the session;
  the result carries the database as it is stored after the call, and the tasks that were
  added to \<open>background_tasks\<close> (user id and points of each \<open>update_leaderboard\<close>).
\<close>

definition submit_attempt_with ::
  "(puzzle_attempt list \<Rightarrow> error + nat) \<Rightarrow> (error + bool) \<Rightarrow> bool \<Rightarrow> int \<Rightarrow> string
    \<Rightarrow> real option \<Rightarrow> int \<Rightarrow> database
    \<Rightarrow> (error + puzzle_attempt) \<times> (int \<times> int) list \<times> database"
where
  "submit_attempt_with count_call validation commit_ok puzzle_id solution_submitted time_taken
     current_user db =
     (case find (\<lambda>p. p_id p = puzzle_id) (db_puzzles db) of
        None \<Rightarrow> (Inl (HTTPException 404), [], db)
      | Some puzzle \<Rightarrow>
          (case validation of
             Inl e \<Rightarrow> (Inl e, [], db)
           | Inr is_correct \<Rightarrow>
               (let puzzle_attempt =
                      \<lparr>a_user_id = current_user, a_puzzle_id = puzzle_id,
                       a_solution_submitted = solution_submitted, a_is_correct = is_correct,
                       a_time_taken = time_taken,
                       a_points_earned = (if is_correct then p_points puzzle else 0)\<rparr>;
                    added = db\<lparr>db_attempts := db_attempts db @ [puzzle_attempt]\<rparr>
                in if is_correct
                   then (case count_call (filter (\<lambda>a. a_puzzle_id a = puzzle_id) (db_attempts db)) of
                           Inl e \<Rightarrow> (Inl e, [], db)
                         | Inr n \<Rightarrow>
                             (let session = added
                                    \<lparr>db_users :=
                                       map (\<lambda>u. if u_id u = current_user
                                                 then u\<lparr>u_total_score := u_total_score u + p_points puzzle,
                                                        u_puzzles_solved := u_puzzles_solved u + 1,
                                                        u_win_streak := u_win_streak u + 1\<rparr>
                                                 else u) (db_users added),
                                     db_puzzles :=
                                       map (\<lambda>p. if p_id p = puzzle_id
                                                 then p\<lparr>p_times_solved := p_times_solved p + 1,
                                                        p_success_rate :=
                                                          real_of_int (p_times_solved p + 1)
                                                            / real (n + 1) * 100\<rparr>
                                                 else p) (db_puzzles added)\<rparr>;
                                  background_tasks = [(current_user, p_points puzzle)]
                              in if commit_ok then (Inr puzzle_attempt, background_tasks, session)
                                 else (Inl CommitError, background_tasks, db)))
                   else (let session = added
                               \<lparr>db_users :=
                                  map (\<lambda>u. if u_id u = current_user then u\<lparr>u_win_streak := 0\<rparr> else u)
                                    (db_users added)\<rparr>
                         in if commit_ok then (Inr puzzle_attempt, [], session)
                            else (Inl CommitError, [], db)))))"

text \<open>\<open>submit_attempt\<close> as the code has it.\<close>

definition submit_attempt ::
  "(error + bool) \<Rightarrow> bool \<Rightarrow> int \<Rightarrow> string \<Rightarrow> real option \<Rightarrow> int \<Rightarrow> database
    \<Rightarrow> (error + puzzle_attempt) \<times> (int \<times> int) list \<times> database"
where
  "submit_attempt = submit_attempt_with attempts_count"

text \<open>
  The request as the framework runs it. A handler that returns has its background tasks
  run after the response, in order, until one raises; a handler that raises gets an error
  response and its tasks are not run. The state is the database, the store, what the
  WebSockets have been sent, and the tasks that were started.
\<close>

record world =
  w_db :: database
  w_redis :: redis
  w_wire :: "message wire"
  w_tasks_run :: "(int \<times> int) list"

fun run_background_tasks :: "(int \<times> int) list \<Rightarrow> world \<Rightarrow> nat \<Rightarrow> world" where
  "run_background_tasks [] w now = w"
| "run_background_tasks ((user_id, points) # rest) w now =
     (case puzzles_update_leaderboard user_id points (w_redis w) now of
        (Inl e, r') \<Rightarrow> w\<lparr>w_redis := r', w_tasks_run := w_tasks_run w @ [(user_id, points)]\<rparr>
      | (Inr _, r') \<Rightarrow>
          run_background_tasks rest
            (w\<lparr>w_redis := r', w_tasks_run := w_tasks_run w @ [(user_id, points)]\<rparr>) now)"

definition post_attempt_with ::
  "(puzzle_attempt list \<Rightarrow> error + nat) \<Rightarrow> (error + bool) \<Rightarrow> bool \<Rightarrow> int \<Rightarrow> string
    \<Rightarrow> real option \<Rightarrow> int \<Rightarrow> world \<Rightarrow> nat \<Rightarrow> (error + puzzle_attempt) \<times> world"
where
  "post_attempt_with count_call validation commit_ok puzzle_id solution_submitted time_taken
     current_user w now =
     (case submit_attempt_with count_call validation commit_ok puzzle_id solution_submitted
             time_taken current_user (w_db w) of
        (Inl e, tasks, db') \<Rightarrow> (Inl e, w\<lparr>w_db := db'\<rparr>)
      | (Inr attempt, tasks, db') \<Rightarrow> (Inr attempt, run_background_tasks tasks (w\<lparr>w_db := db'\<rparr>) now))"

definition post_attempt ::
  "(error + bool) \<Rightarrow> bool \<Rightarrow> int \<Rightarrow> string \<Rightarrow> real option \<Rightarrow> int \<Rightarrow> world \<Rightarrow> nat
    \<Rightarrow> (error + puzzle_attempt) \<times> world"
where
  "post_attempt = post_attempt_with attempts_count"

section \<open>Concurrent readers of one leaderboard page\<close>

text \<open>
  \<open>get_global_leaderboard\<close> suspends at \<open>await cache.get\<close> and at \<open>await cache.set\<close>;
  the query and the loop between them do not suspend. A call is therefore two steps: the
  read of the cache, and, after a miss, the recomputation: the query, the loop and the
  store of the page. Calls of several clients interleave at these steps. A caller is before
  its read (\<open>Start\<close>), after a miss (\<open>Missed\<close>), or finished with a value or an exception.
  The session and the clock are fixed during a run.
\<close>

datatype caller = Start | Missed | Done response | Failed error

record readers =
  rd_store :: redis
  rd_callers :: "caller list"
  rd_recomputations :: nat

definition reader_step :: "int \<Rightarrow> int \<Rightarrow> session \<Rightarrow> nat \<Rightarrow> nat \<Rightarrow> readers \<Rightarrow> readers" where
  "reader_step skip limit db now i s =
     (if i < length (rd_callers s)
      then (case rd_callers s ! i of
              Start \<Rightarrow>
                (case CacheService_get (rd_store s) now (global_cache_key skip limit) of
                   Inl e \<Rightarrow> s\<lparr>rd_callers := (rd_callers s)[i := Failed e]\<rparr>
                 | Inr cached_data \<Rightarrow>
                     if truthy_cached cached_data
                     then s\<lparr>rd_callers := (rd_callers s)[i := Done (FromCache (the cached_data))]\<rparr>
                     else s\<lparr>rd_callers := (rd_callers s)[i := Missed]\<rparr>)
            | Missed \<Rightarrow>
                (case leaderboard_recompute skip limit db (rd_store s) now of
                   (Inl e, r') \<Rightarrow>
                     s\<lparr>rd_store := r', rd_callers := (rd_callers s)[i := Failed e],
                       rd_recomputations := Suc (rd_recomputations s)\<rparr>
                 | (Inr leaderboard, r') \<Rightarrow>
                     s\<lparr>rd_store := r', rd_callers := (rd_callers s)[i := Done (Built leaderboard)],
                       rd_recomputations := Suc (rd_recomputations s)\<rparr>)
            | Done v \<Rightarrow> s
            | Failed e \<Rightarrow> s)
      else s)"

text \<open>A schedule names, step by step, the caller that runs next.\<close>

fun run_schedule :: "int \<Rightarrow> int \<Rightarrow> session \<Rightarrow> nat \<Rightarrow> nat list \<Rightarrow> readers \<Rightarrow> readers" where
  "run_schedule skip limit db now [] s = s"
| "run_schedule skip limit db now (i # rest) s =
     run_schedule skip limit db now rest (reader_step skip limit db now i s)"

definition initial_readers :: "nat \<Rightarrow> redis \<Rightarrow> readers" where
  "initial_readers n r = \<lparr>rd_store = r, rd_callers = replicate n Start, rd_recomputations = 0\<rparr>"

text \<open>
  \<open>complete n sched\<close>: in the schedule, each of the \<open>n\<close> callers runs both of its steps.
\<close>

definition complete :: "nat \<Rightarrow> nat list \<Rightarrow> bool" where
  "complete n sched = list_all (\<lambda>i. 2 \<le> count_list sched i) [0..<n]"

text \<open>
  \<open>phase e k\<close>: the state of a caller that has taken \<open>k\<close> steps, when its read misses
  and its recomputation raises \<open>e\<close>.
\<close>

definition phase :: "error \<Rightarrow> nat \<Rightarrow> caller" where
  "phase e k = (if k = 0 then Start else if k = 1 then Missed else Failed e)"

text \<open>A database and a state for the examples.\<close>

definition example_db :: database where
  "example_db =
     \<lparr>db_users = users_before,
      db_puzzles = [\<lparr>p_id = 5, p_points = 100, p_times_solved = 0, p_success_rate = 0\<rparr>],
      db_attempts = []\<rparr>"

definition example_world :: world where
  "example_world =
     \<lparr>w_db = example_db, w_redis = cached_page_store, w_wire = empty_wire, w_tasks_run = []\<rparr>"

section \<open>Properties of the connection registry\<close>

lemma map_of_None_keys: "map_of al k = None \<longleftrightarrow> k \<notin> set (map fst al)"
  by (simp add: map_of_eq_None_iff)

lemma registry_inv_init: "registry_inv init_manager"
  by (simp add: registry_inv_def init_manager_def)

subsection \<open>Association lists as dictionaries\<close>

lemma set_update_subset: "set (AList.update k v al) \<subseteq> insert (k, v) (set al)"
  by (induction al) auto

lemma set_delete_subset: "set (AList.delete k al) \<subseteq> set al"
  by (auto simp: AList.delete_eq)

lemma keys_update: "set (map fst (AList.update k v al)) = insert k (set (map fst al))"
  using AList.dom_update [of k v al] by simp

lemma keys_delete: "set (map fst (AList.delete k al)) = set (map fst al) - {k}"
  by (simp add: AList.delete_keys)

lemma nonempty_update:
  assumes "\<forall>(u, c) \<in> set al. c \<noteq> {}" and "v \<noteq> {}"
  shows "\<forall>(u, c) \<in> set (AList.update k v al). c \<noteq> {}"
  using assms set_update_subset [of k v al] by auto

lemma nonempty_delete:
  assumes "\<forall>(u, c) \<in> set al. c \<noteq> {}"
  shows "\<forall>(u, c) \<in> set (AList.delete k al). c \<noteq> {}"
  using assms set_delete_subset [of k al] by auto

lemma key_has_entry:
  assumes "u \<in> set (map fst al)"
  shows "\<exists>v. (u, v) \<in> set al"
  using assms by auto

subsection \<open>The invariant is kept by connect and disconnect\<close>

lemma inv_distinct_ac: "registry_inv m \<Longrightarrow> distinct (map fst (active_connections m))"
  by (simp add: registry_inv_def)

lemma inv_same_keys:
  "registry_inv m \<Longrightarrow> set (map fst (active_connections m)) = set (map fst (user_channels m))"
  by (simp add: registry_inv_def)

lemma connect_new_eq:
  assumes "map_of (active_connections m) uid = None"
  shows "connect m ws uid ch =
    (Inr (), m\<lparr>active_connections := AList.update uid {ws} (active_connections m),
               user_channels := AList.update uid (if truthy_str ch then {the ch} else {})
                                  (user_channels m)\<rparr>)"
  using assms by (simp add: connect_def Let_def AList.update_conv')

lemma connect_known_eq:
  assumes "map_of (active_connections m) uid = Some conns"
    and "map_of (user_channels m) uid = Some chans"
  shows "connect m ws uid ch =
    (Inr (), m\<lparr>active_connections := AList.update uid (insert ws conns) (active_connections m),
               user_channels := (if truthy_str ch
                                 then AList.update uid (insert (the ch) chans) (user_channels m)
                                 else user_channels m)\<rparr>)"
  using assms by (simp add: connect_def Let_def)

lemma connect_new_user:
  assumes "registry_inv m" and "map_of (active_connections m) uid = None"
  shows "registry_inv (snd (connect m ws uid ch)) \<and> fst (connect m ws uid ch) = Inr ()"
proof -
  let ?ac = "AList.update uid {ws} (active_connections m)"
  let ?uc0 = "AList.update uid {} (user_channels m)"
  have acs: "AList.update uid (insert ws {}) (AList.update uid {} (active_connections m)) = ?ac"
    by simp
  have uc0: "map_of ?uc0 uid = Some {}"
    by (simp add: AList.update_conv')
  have ne: "\<forall>(u, c) \<in> set ?ac. c \<noteq> {}"
    using assms(1) by (intro nonempty_update) (auto simp: registry_inv_def)
  have keys: "set (map fst ?ac) = set (map fst ?uc0)"
    using assms(1) unfolding keys_update by (simp add: registry_inv_def)
  have d1: "distinct (map fst ?ac)" and d2: "distinct (map fst ?uc0)"
    using assms(1) by (simp_all add: registry_inv_def AList.distinct_update)
  show ?thesis
  proof (cases "truthy_str ch")
    case False
    then have "connect m ws uid ch = (Inr (), m\<lparr>active_connections := ?ac, user_channels := ?uc0\<rparr>)"
      using assms(2) by (simp add: connect_def Let_def AList.update_conv')
    then show ?thesis using ne keys d1 d2 by (simp add: registry_inv_def)
  next
    case True
    let ?uc = "AList.update uid {the ch} (user_channels m)"
    from True have "connect m ws uid ch = (Inr (), m\<lparr>active_connections := ?ac, user_channels := ?uc\<rparr>)"
      using assms(2) by (simp add: connect_def Let_def AList.update_conv')
    moreover have "set (map fst ?ac) = set (map fst ?uc)"
      using assms(1) unfolding keys_update by (simp add: registry_inv_def)
    moreover have "distinct (map fst ?uc)"
      using assms(1) by (simp add: registry_inv_def AList.distinct_update)
    ultimately show ?thesis using ne d1 by (simp add: registry_inv_def)
  qed
qed

lemma connect_known_user:
  assumes "registry_inv m" and "map_of (active_connections m) uid = Some conns"
  shows "registry_inv (snd (connect m ws uid ch)) \<and> fst (connect m ws uid ch) = Inr ()"
proof -
  let ?ac = "AList.update uid (insert ws conns) (active_connections m)"
  have "uid \<in> set (map fst (active_connections m))"
    using assms(2) map_of_None_keys [of "active_connections m" uid] by auto
  then have "uid \<in> set (map fst (user_channels m))"
    using assms(1) by (simp add: registry_inv_def)
  then obtain chans where chans: "map_of (user_channels m) uid = Some chans"
    using map_of_None_keys [of "user_channels m" uid] by (cases "map_of (user_channels m) uid") auto
  have ne: "\<forall>(u, c) \<in> set ?ac. c \<noteq> {}"
    using assms(1) by (intro nonempty_update) (auto simp: registry_inv_def)
  have keys: "set (map fst ?ac) = set (map fst (user_channels m))"
    using assms(1) \<open>uid \<in> set (map fst (active_connections m))\<close> unfolding keys_update
    by (auto simp: registry_inv_def)
  have d1: "distinct (map fst ?ac)"
    using assms(1) by (simp add: registry_inv_def AList.distinct_update)
  show ?thesis
  proof (cases "truthy_str ch")
    case False
    then have "connect m ws uid ch = (Inr (), m\<lparr>active_connections := ?ac\<rparr>)"
      using assms(2) by (simp add: connect_def Let_def)
    then show ?thesis using ne keys d1 assms(1) by (simp add: registry_inv_def)
  next
    case True
    let ?uc = "AList.update uid (insert (the ch) chans) (user_channels m)"
    from True have "connect m ws uid ch = (Inr (), m\<lparr>active_connections := ?ac, user_channels := ?uc\<rparr>)"
      using assms(2) chans by (simp add: connect_def Let_def)
    moreover have "set (map fst ?ac) = set (map fst ?uc)"
      using keys \<open>uid \<in> set (map fst (user_channels m))\<close> unfolding keys_update by auto
    moreover have "distinct (map fst ?uc)"
      using assms(1) by (simp add: registry_inv_def AList.distinct_update)
    ultimately show ?thesis using ne d1 by (simp add: registry_inv_def)
  qed
qed

lemma connect_inv:
  assumes "registry_inv m"
  shows "registry_inv (snd (connect m ws uid ch)) \<and> fst (connect m ws uid ch) = Inr ()"
  using assms connect_new_user connect_known_user
  by (cases "map_of (active_connections m) uid") blast+

lemma disconnect_inv:
  assumes "registry_inv m"
  shows "registry_inv (snd (disconnect m ws uid))"
proof (cases "map_of (active_connections m) uid")
  case None
  then show ?thesis using assms by (simp add: disconnect_def)
next
  case (Some conns)
  have in_ac: "uid \<in> set (map fst (active_connections m))"
    using Some map_of_None_keys [of "active_connections m" uid] by auto
  then have in_uc: "uid \<in> set (map fst (user_channels m))"
    using assms by (simp add: registry_inv_def)
  then obtain chans where chans: "map_of (user_channels m) uid = Some chans"
    using map_of_None_keys [of "user_channels m" uid] by (cases "map_of (user_channels m) uid") auto
  show ?thesis
  proof (cases "ws \<in> conns")
    case False
    then show ?thesis using Some assms by (simp add: disconnect_def)
  next
    case True
    show ?thesis
    proof (cases "conns - {ws} = {}")
      case False
      let ?ac = "AList.update uid (conns - {ws}) (active_connections m)"
      have "disconnect m ws uid = (Inr (), m\<lparr>active_connections := ?ac\<rparr>)"
        using Some True False by (simp add: disconnect_def Let_def)
      moreover have "\<forall>(u, c) \<in> set ?ac. c \<noteq> {}"
        using assms False by (intro nonempty_update) (auto simp: registry_inv_def)
      moreover have "set (map fst ?ac) = set (map fst (user_channels m))"
        using assms in_ac unfolding keys_update by (auto simp: registry_inv_def)
      moreover have "distinct (map fst ?ac)"
        using assms by (simp add: registry_inv_def AList.distinct_update)
      ultimately show ?thesis using assms by (simp add: registry_inv_def)
    next
      case empty: True
      let ?ac = "AList.delete uid (active_connections m)"
      let ?uc = "AList.delete uid (user_channels m)"
      have "disconnect m ws uid = (Inr (), m\<lparr>active_connections := ?ac, user_channels := ?uc\<rparr>)"
        using Some True empty chans by (simp add: disconnect_def Let_def AList.delete_update_same)
      moreover have "\<forall>(u, c) \<in> set ?ac. c \<noteq> {}"
        using assms by (intro nonempty_delete) (auto simp: registry_inv_def)
      moreover have "set (map fst ?ac) = set (map fst ?uc)"
        using assms unfolding keys_delete by (simp add: registry_inv_def)
      moreover have "distinct (map fst ?ac)" "distinct (map fst ?uc)"
        using assms by (simp_all add: registry_inv_def AList.distinct_delete)
      ultimately show ?thesis by (simp add: registry_inv_def)
    qed
  qed
qed

text \<open>
  Claim C9. The registry invariant (both dictionaries have the same keys, and every user
  in the connection dictionary has at least one connection) holds of the empty registry
  (\<open>registry_inv_init\<close>) and is preserved by \<open>connect\<close>, which then never raises, and
  by \<open>disconnect\<close>, whether it returns or raises \<open>KeyError\<close>.
\<close>

theorem registry_invariant_preserved:
  assumes "registry_inv m"
  shows "registry_inv (snd (connect m ws uid ch)) \<and> fst (connect m ws uid ch) = Inr () \<and>
         registry_inv (snd (disconnect m ws' uid'))"
  using connect_inv [OF assms] disconnect_inv [OF assms] by simp

theorem registry_invariant_preserved_witness:
  "registry_inv example_registry \<and>
   registry_inv (snd (connect example_registry 4 9 (Some ''leaderboard''))) \<and>
   fst (connect example_registry 4 9 (Some ''leaderboard'')) = Inr () \<and>
   registry_inv (snd (disconnect example_registry 3 8))"
proof -
  have h: "registry_inv example_registry"
    by (simp add: registry_inv_def example_registry_def)
  show ?thesis
    using h registry_invariant_preserved [OF h, of 4 9 "Some ''leaderboard''" 3 8] by simp
qed

subsection \<open>What a broadcast delivers\<close>

lemma send_personal_message_at:
  "send_personal_message m msg u wire w = (if receives m u w then wire w @ [msg] else wire w)"
  by (simp add: send_personal_message_def receives_def split: option.splits)

lemma broadcast_loop_at:
  "broadcast_loop m msg ch ucs wire w = wire w @ replicate (length (selected m ch w ucs)) msg"
proof (induction ucs arbitrary: wire)
  case Nil
  show ?case by (simp add: selected_def)
next
  case (Cons p ucs)
  obtain u chs where p: "p = (u, chs)" by (cases p)
  show ?case
    unfolding p by (simp add: Cons.IH send_personal_message_at selected_def replicate_app_Cons_same)
qed

lemma broadcast_at:
  "broadcast m msg ch wire w = wire w @ replicate (length (selected m ch w (user_channels m))) msg"
  by (simp add: broadcast_def broadcast_loop_at)

lemma selected_empty:
  assumes "\<And>u. \<not> receives m u w"
  shows "selected m ch w ucs = []"
  using assms by (auto simp: selected_def filter_empty_conv)

lemma selected_nonempty:
  assumes "(u, chs) \<in> set ucs" and "\<not> truthy_str ch \<or> the ch \<in> chs" and "receives m u w"
  shows "0 < length (selected m ch w ucs)"
proof -
  have "(u, chs) \<in> set (selected m ch w ucs)"
    using assms by (simp add: selected_def)
  then show ?thesis by (cases "selected m ch w ucs") auto
qed

lemma connected_receives:
  assumes "distinct (map fst (active_connections m))"
    and "(u, conns) \<in> set (active_connections m)" and "w \<in> conns"
  shows "receives m u w"
  using assms by (simp add: receives_def)

lemma broadcast_reaches:
  assumes inv: "registry_inv m"
    and entry: "(u, conns) \<in> set (active_connections m)" and w: "w \<in> conns"
    and chs: "\<And>chs. (u, chs) \<in> set (user_channels m) \<Longrightarrow> \<not> truthy_str ch \<or> the ch \<in> chs"
  shows "\<exists>n>0. broadcast m msg ch wire w = wire w @ replicate n msg"
proof -
  have r: "receives m u w"
    using inv_distinct_ac [OF inv] entry w by (rule connected_receives)
  have "u \<in> fst ` set (active_connections m)"
    using entry by (rule image_eqI [rotated]) simp
  then have "u \<in> set (map fst (user_channels m))"
    using inv_same_keys [OF inv] by simp
  from key_has_entry [OF this] obtain chs where e: "(u, chs) \<in> set (user_channels m)" ..
  have "0 < length (selected m ch w (user_channels m))"
    using e chs [OF e] r by (rule selected_nonempty)
  then show ?thesis
    by (intro exI [of _ "length (selected m ch w (user_channels m))"]) (simp add: broadcast_at)
qed

subsection \<open>Disconnect\<close>

lemma disconnect_active:
  "active_connections (snd (disconnect m ws uid)) =
     (case map_of (active_connections m) uid of
        None \<Rightarrow> active_connections m
      | Some conns \<Rightarrow>
          if ws \<notin> conns then active_connections m
          else if conns - {ws} = {} then AList.delete uid (active_connections m)
          else AList.update uid (conns - {ws}) (active_connections m))"
proof (cases "map_of (active_connections m) uid")
  case None
  then show ?thesis by (simp add: disconnect_def)
next
  case (Some conns)
  show ?thesis
  proof (cases "ws \<in> conns")
    case False
    then show ?thesis using Some by (simp add: disconnect_def)
  next
    case True
    show ?thesis
    proof (cases "conns - {ws} = {}")
      case False
      then show ?thesis using Some True by (simp add: disconnect_def Let_def)
    next
      case empty: True
      show ?thesis
      proof (cases "map_of (user_channels m) uid")
        case None
        then show ?thesis using Some True empty
          by (simp add: disconnect_def Let_def AList.delete_update_same)
      next
        case (Some chans)
        then show ?thesis using \<open>map_of (active_connections m) uid = Some conns\<close> True empty
          by (simp add: disconnect_def Let_def AList.delete_update_same)
      qed
    qed
  qed
qed

lemma not_receives_after_disconnect:
  assumes "sole_owner m ws uid"
  shows "\<not> receives (snd (disconnect m ws uid)) u ws"
proof (cases "u = uid")
  case True
  show ?thesis unfolding True receives_def disconnect_active
    by (simp add: AList.update_conv' AList.delete_conv' split: option.splits)
next
  case False
  have same: "map_of (active_connections (snd (disconnect m ws uid))) u = map_of (active_connections m) u"
    unfolding disconnect_active using False
    by (simp add: AList.update_conv' AList.delete_conv' split: option.splits)
  show ?thesis
  proof (cases "map_of (active_connections m) u")
    case None
    then show ?thesis using same by (simp add: receives_def)
  next
    case (Some conns)
    then have "(u, conns) \<in> set (active_connections m)" by (rule map_of_SomeD)
    then have "ws \<notin> conns" using assms False by (auto simp: sole_owner_def list_all_iff)
    then show ?thesis using same Some by (simp add: receives_def)
  qed
qed

text \<open>
  Claim C5. Once \<open>disconnect\<close> has run for a WebSocket that is registered for no other
  user (a connection has one owner), the WebSocket is in no user's connection set, so it is
  in no channel's audience, and neither a broadcast on any channel nor a personal message to
  any user sends it anything: what it has been sent stays as it was. This holds for every
  outcome of \<open>disconnect\<close>.
\<close>

theorem disconnect_stops_delivery:
  assumes "sole_owner m ws uid"
  shows "(\<forall>u. \<not> receives (snd (disconnect m ws uid)) u ws) \<and>
         broadcast (snd (disconnect m ws uid)) msg ch wire ws = wire ws \<and>
         send_personal_message (snd (disconnect m ws uid)) msg u' wire ws = wire ws"
  using not_receives_after_disconnect [OF assms]
  by (simp add: broadcast_at send_personal_message_at selected_empty)

theorem disconnect_stops_delivery_witness:
  "sole_owner example_registry 1 7 \<and>
   fst (disconnect example_registry 1 7) = Inr () \<and>
   broadcast (snd (disconnect example_registry 1 7)) ''score'' (Some ''leaderboard'') empty_wire 1
     = empty_wire 1 \<and>
   broadcast (snd (disconnect example_registry 1 7)) ''score'' (Some ''leaderboard'') empty_wire 2
     = [''score''] \<and>
   send_personal_message (snd (disconnect example_registry 1 7)) ''score'' 7 empty_wire 1
     = empty_wire 1"
proof -
  have h: "sole_owner example_registry 1 7"
    by (simp add: sole_owner_def example_registry_def)
  have ok: "fst (disconnect example_registry 1 7) = Inr ()"
    by (simp add: disconnect_def example_registry_def Let_def)
  have other: "broadcast (snd (disconnect example_registry 1 7)) ''score'' (Some ''leaderboard'')
      empty_wire 2 = [''score'']"
    by (simp add: disconnect_def example_registry_def Let_def broadcast_def
        send_personal_message_def empty_wire_def)
  show ?thesis
    using h ok other
      disconnect_stops_delivery [OF h, of "''score''" "Some ''leaderboard''" empty_wire 7]
    by simp
qed

subsection \<open>Broadcast without a channel, personal message without a connection\<close>

text \<open>
  Claim C10. In a registry that satisfies the invariant, a broadcast whose channel is
  absent (\<open>None\<close>, or the empty string, which Python also treats as false) appends the
  message to what every registered WebSocket has been sent, at least once, whatever the
  channel sets hold; and a personal message to a user with no entry in the connection
  dictionary changes nothing and raises nothing.
\<close>

theorem broadcast_all_and_personal_noop:
  assumes "registry_inv m"
  shows "(\<forall>(u, conns) \<in> set (active_connections m). \<forall>w \<in> conns.
            \<not> truthy_str ch \<longrightarrow>
            (\<exists>n>0. broadcast m msg ch wire w = wire w @ replicate n msg)) \<and>
         (map_of (active_connections m) user_id = None \<longrightarrow>
            send_personal_message m msg user_id wire = wire)"
proof (intro conjI ballI impI)
  fix p w
  assume p: "p \<in> set (active_connections m)"
  show "case p of (u, conns) \<Rightarrow> \<forall>w \<in> conns. \<not> truthy_str ch \<longrightarrow>
            (\<exists>n>0. broadcast m msg ch wire w = wire w @ replicate n msg)"
  proof (cases p)
    case (Pair u conns)
    show ?thesis unfolding Pair prod.case
    proof (intro ballI impI)
      fix w assume w: "w \<in> conns" and ch: "\<not> truthy_str ch"
      have e: "(u, conns) \<in> set (active_connections m)" using p Pair by simp
      show "\<exists>n>0. broadcast m msg ch wire w = wire w @ replicate n msg"
        by (rule broadcast_reaches [OF assms e w]) (simp add: ch)
    qed
  qed
next
  assume "map_of (active_connections m) user_id = None"
  then show "send_personal_message m msg user_id wire = wire"
    by (simp add: send_personal_message_def)
qed

theorem broadcast_all_and_personal_noop_witness:
  "registry_inv example_registry \<and>
   (\<exists>n>0. broadcast example_registry ''hello'' None empty_wire 3 = empty_wire 3 @ replicate n ''hello'') \<and>
   map_of (active_connections example_registry) 99 = None \<and>
   send_personal_message example_registry ''hello'' 99 empty_wire = empty_wire"
proof -
  have h: "registry_inv example_registry"
    by (simp add: registry_inv_def example_registry_def)
  have e: "(8, {3}) \<in> set (active_connections example_registry)"
    by (simp add: example_registry_def)
  have n: "map_of (active_connections example_registry) 99 = None"
    by (simp add: example_registry_def)
  note t = broadcast_all_and_personal_noop [OF h, of None "''hello''" empty_wire 99]
  from t have "\<forall>(u, conns) \<in> set (active_connections example_registry). \<forall>w \<in> conns.
      \<not> truthy_str None \<longrightarrow>
      (\<exists>n>0. broadcast example_registry ''hello'' None empty_wire w = empty_wire w @ replicate n ''hello'')"
    by (rule conjunct1)
  from bspec [OF this e]
  have b: "\<exists>n>0. broadcast example_registry ''hello'' None empty_wire 3 = empty_wire 3 @ replicate n ''hello''"
    by simp
  from t n have "send_personal_message example_registry ''hello'' 99 empty_wire = empty_wire"
    by blast
  with h b n show ?thesis by blast
qed

subsection \<open>Subscriptions belong to the member\<close>

lemma connect_subscribes:
  assumes inv: "registry_inv m" and c: "c \<noteq> []"
  shows "\<exists>chans. map_of (user_channels (snd (connect m ws u (Some c)))) u = Some chans \<and> c \<in> chans"
proof (cases "map_of (active_connections m) u")
  case None
  show ?thesis unfolding connect_new_eq [OF None] using c by (simp add: AList.update_conv')
next
  case (Some conns)
  then have "u \<in> set (map fst (active_connections m))"
    using map_of_None_keys [of "active_connections m" u] by auto
  then have "u \<in> set (map fst (user_channels m))"
    using inv_same_keys [OF inv] by simp
  then obtain chans where chans: "map_of (user_channels m) u = Some chans"
    using map_of_None_keys [of "user_channels m" u] by (cases "map_of (user_channels m) u") auto
  show ?thesis unfolding connect_known_eq [OF Some chans] using c by (simp add: AList.update_conv')
qed

text \<open>
  Claim C7, as stated, fails: the channel sets are keyed by user id, not by connection.
  User 7 opens WebSocket 1 without a channel and then WebSocket 2 with the channel
  \<open>leaderboard\<close>; a broadcast on \<open>leaderboard\<close> is sent to WebSocket 1 as well, which
  never subscribed.
\<close>

theorem per_connection_subscription_counterexample:
  "broadcast (snd (connect (snd (connect init_manager 1 7 None)) 2 7 (Some ''leaderboard'')))
     ''score'' (Some ''leaderboard'') empty_wire 1 = [''score'']"
  by (simp add: connect_def init_manager_def Let_def broadcast_def send_personal_message_def
      empty_wire_def)

text \<open>
  Claim C7, amended. Subscriptions are held per member: after \<open>connect\<close> with a non-empty
  channel for user \<open>u\<close>, in a registry that satisfies the invariant, a broadcast on that
  channel is sent to every WebSocket registered for \<open>u\<close>, the new one and the earlier ones
  alike.
\<close>

theorem subscription_shared_by_member:
  assumes inv: "registry_inv m" and c: "c \<noteq> []"
    and conns: "map_of (active_connections (snd (connect m ws u (Some c)))) u = Some conns"
    and w: "w \<in> conns"
  shows "\<exists>n>0. broadcast (snd (connect m ws u (Some c))) msg (Some c) wire w = wire w @ replicate n msg"
proof -
  let ?m = "snd (connect m ws u (Some c))"
  have inv': "registry_inv ?m" using connect_inv [OF inv] by blast
  have e: "(u, conns) \<in> set (active_connections ?m)" using conns by (rule map_of_SomeD)
  obtain chans where chans: "map_of (user_channels ?m) u = Some chans" "c \<in> chans"
    using connect_subscribes [OF inv c] by blast
  have d: "distinct (map fst (user_channels ?m))" using inv' by (simp add: registry_inv_def)
  show ?thesis
  proof (rule broadcast_reaches [OF inv' e w])
    fix chs assume "(u, chs) \<in> set (user_channels ?m)"
    then have "map_of (user_channels ?m) u = Some chs" using d by simp
    then have "chs = chans" using chans(1) by simp
    then show "\<not> truthy_str (Some c) \<or> the (Some c) \<in> chs" using chans(2) by simp
  qed
qed

theorem subscription_shared_by_member_witness:
  "registry_inv example_registry \<and> ''math'' \<noteq> [] \<and>
   map_of (active_connections (snd (connect example_registry 5 7 (Some ''math'')))) 7 = Some {1, 2, 5} \<and>
   (1::nat) \<in> {1, 2, 5} \<and>
   (\<exists>n>0. broadcast (snd (connect example_registry 5 7 (Some ''math''))) ''solved'' (Some ''math'')
             empty_wire 1 = empty_wire 1 @ replicate n ''solved'')"
proof -
  have h: "registry_inv example_registry"
    by (simp add: registry_inv_def example_registry_def)
  have c: "''math'' \<noteq> []" by simp
  have s: "map_of (active_connections (snd (connect example_registry 5 7 (Some ''math'')))) 7
      = Some {1, 2, 5}"
    by (auto simp add: connect_def example_registry_def Let_def)
  have w: "(1::nat) \<in> {1, 2, 5}" by simp
  show ?thesis
    using h c s w subscription_shared_by_member [OF h c s w, of "''solved''" empty_wire] by simp
qed


section \<open>Properties of the cache service and of the leaderboard\<close>

subsection \<open>Keys\<close>

lemma key_0_100: "global_cache_key 0 100 = ''global_leaderboard:0:100''"
  by (simp add: global_cache_key_def str_int_def str_nat.simps digit_char_def)

lemma str_nat_head: "\<exists>d ds. str_nat n = d # ds \<and> d \<in> set ''0123456789''"
proof (induction n rule: str_nat.induct)
  case (1 n)
  show ?case
  proof (cases "n < 10")
    case True
    then have "n \<in> {0, 1, 2, 3, 4, 5, 6, 7, 8, 9}" by auto
    then have "digit_char n \<in> set ''0123456789''" by (auto simp: digit_char_def)
    then show ?thesis using True by (subst str_nat.simps) simp
  next
    case False
    from 1 [OF False] obtain d ds where "str_nat (n div 10) = d # ds" "d \<in> set ''0123456789''"
      by blast
    then show ?thesis using False by (subst str_nat.simps) simp
  qed
qed

lemma str_int_head: "\<exists>d ds. str_int i = d # ds \<and> d \<in> set ''-0123456789''"
proof (cases "i < 0")
  case True
  then show ?thesis by (simp add: str_int_def)
next
  case False
  obtain d ds where "str_nat (nat i) = d # ds" "d \<in> set ''0123456789''"
    using str_nat_head by blast
  then show ?thesis using False by (auto simp: str_int_def)
qed

lemma global_key_not_pattern: "global_cache_key skip limit \<noteq> ''global_leaderboard:*''"
proof
  assume a: "global_cache_key skip limit = ''global_leaderboard:*''"
  obtain d ds where d: "str_int skip = d # ds" "d \<in> set ''-0123456789''"
    using str_int_head by blast
  from a have "d = CHR ''*''" unfolding global_cache_key_def d by simp
  then show False using d(2) by simp
qed

subsection \<open>Calls that raise\<close>

lemma call_increment_two_args:
  "call_increment r now [PStr key, PInt points] = (Inl TypeError, r)"
  by (simp add: call_increment_def)

lemma puzzles_update_leaderboard_raises:
  "puzzles_update_leaderboard user_id points r now = (Inl TypeError, r)"
  by (simp add: puzzles_update_leaderboard_def call_increment_two_args)

lemma apply_deltas_unchanged: "apply_deltas user_id ds r now = r"
  by (induction ds) (simp_all add: puzzles_update_leaderboard_raises)

lemma update_leaderboard_raises:
  "update_leaderboard user_id points category m r wire now = (Inl TypeError, r, wire)"
  by (simp add: update_leaderboard_def call_increment_two_args)

lemma get_user_leaderboard_data_never_returns:
  "\<exists>e. get_user_leaderboard_data user_id r now = Inl e"
  by (simp add: get_user_leaderboard_data_def get_user_leaderboard_data_with_def
      CacheService_get_sorted_set_rank_def split: sum.splits)

lemma set_list_raises:
  "CacheService_set r now key (VBoard b) expire = (Inl DataError, r)"
  by (simp add: CacheService_set_def)

lemma recompute_raises: "\<exists>e. leaderboard_recompute skip limit db r now = (Inl e, r)"
  by (cases "db skip limit") (simp_all add: leaderboard_recompute_def set_list_raises)

lemma recompute_raises_data_error:
  "db skip limit = Inr rows \<Longrightarrow> leaderboard_recompute skip limit db r now = (Inl DataError, r)"
  by (simp add: leaderboard_recompute_def set_list_raises)

text \<open>
  What the two store operations do when they are reached with the right arguments: \<open>INCR\<close>
  adds one, whatever the points were, and \<open>ZADD\<close> replaces the score.
\<close>

lemma incr_adds_one:
  "fst (CacheService_increment (snd (CacheService_increment empty_redis 0 ''user_score:1'')) 0 ''user_score:1'') = Inr 2"
  by (simp add: CacheService_increment_def live_def empty_redis_def)

lemma zadd_replaces:
  "zscore (snd (CacheService_add_to_sorted_set
             (snd (CacheService_add_to_sorted_set empty_redis 0 ''leaderboard'' 100 ''1''))
             0 ''leaderboard'' 250 ''1'')) ''leaderboard'' ''1'' = Some 250"
  by (simp add: CacheService_add_to_sorted_set_def live_def empty_redis_def zscore_def)

text \<open>
  Claim C1, on the code: the deltas 100 and 250 are applied for user 1 on an empty store.
  Each run of \<open>update_leaderboard\<close> raises \<open>TypeError\<close> at
  \<open>cache.increment(key, points)\<close>, so the store is still empty afterwards: neither
  \<open>user_score:1\<close> nor the member 1 of the sorted set \<open>leaderboard\<close> records 350, or
  anything.
\<close>

theorem update_leaderboard_records_no_delta:
  "fst (puzzles_update_leaderboard 1 100 empty_redis 0) = Inl TypeError \<and>
   apply_deltas 1 [100, 250] empty_redis 0 = empty_redis \<and>
   CacheService_get (apply_deltas 1 [100, 250] empty_redis 0) 0 (''user_score:'' @ str_int 1) = Inr None \<and>
   zscore (apply_deltas 1 [100, 250] empty_redis 0) ''leaderboard'' (str_int 1) = None"
  by (simp add: puzzles_update_leaderboard_def call_increment_def CacheService_get_def live_def
      empty_redis_def zscore_def)

subsection \<open>The rank query\<close>

text \<open>
  Had \<open>CacheService\<close> a rank method that returns \<open>None\<close> for a member without a rank,
  a member without a score would get score 0 and rank \<open>None\<close>.
\<close>

lemma sentinel_if_method_existed:
  assumes "CacheService_get r now (''user_score:'' @ str_int user_id) = Inr None"
    and "method r now ''leaderboard'' (str_int user_id) = None"
  shows "get_user_leaderboard_data_with (Some method) user_id r now =
         Inr \<lparr>ud_user_id = user_id, ud_score = 0, ud_rank = None\<rparr>"
  using assms by (simp add: get_user_leaderboard_data_with_def)

text \<open>
  Claim C8, on the code: for user 42, who has no score and no rank, in an empty store,
  \<open>get_user_leaderboard_data\<close> raises \<open>AttributeError\<close> at
  \<open>cache.get_sorted_set_rank\<close> instead of returning score 0 and rank \<open>None\<close>.
\<close>

theorem user_leaderboard_data_raises:
  "get_user_leaderboard_data 42 empty_redis 0 = Inl AttributeError"
  by (simp add: get_user_leaderboard_data_def get_user_leaderboard_data_with_def
      CacheService_get_sorted_set_rank_def CacheService_get_def live_def empty_redis_def)

subsection \<open>The ranged read\<close>

text \<open>
  After a miss the handler raises, whatever the session answers, and leaves the store as it
  was; after a hit it returns the cached string. It never returns a page it built.
\<close>

lemma miss_raises:
  assumes "CacheService_get r now (global_cache_key skip limit) = Inr c" and "\<not> truthy_cached c"
  shows "\<exists>e. get_global_leaderboard skip limit db r now = (Inl e, r)"
proof -
  obtain e where "leaderboard_recompute skip limit db r now = (Inl e, r)"
    using recompute_raises by blast
  then have "get_global_leaderboard skip limit db r now = (Inl e, r)"
    using assms by (simp add: get_global_leaderboard_def)
  then show ?thesis ..
qed

lemma hit_result:
  assumes "CacheService_get r now (global_cache_key skip limit) = Inr (Some v)"
    and "truthy_cached (Some v)"
  shows "get_global_leaderboard skip limit db r now = (Inr (FromCache v), r)"
  using assms by (simp add: get_global_leaderboard_def)

lemma never_builds:
  "fst (get_global_leaderboard skip limit db r now) \<noteq> Inr (Built page)"
proof (cases "CacheService_get r now (global_cache_key skip limit)")
  case (Inl e)
  then show ?thesis by (simp add: get_global_leaderboard_def)
next
  case (Inr c)
  show ?thesis
  proof (cases "truthy_cached c")
    case True
    then show ?thesis using Inr by (simp add: get_global_leaderboard_def)
  next
    case False
    from miss_raises [OF Inr False] obtain e where
      "get_global_leaderboard skip limit db r now = (Inl e, r)" by blast
    then show ?thesis by simp
  qed
qed

text \<open>
  The page that the loop builds, before the handler tries to store it, numbers the rows by
  their position in the descending order; with distinct scores that is the number of rows
  with a strictly greater score, plus one.
\<close>

lemma length_enumerate_entries [simp]: "length (enumerate_entries k us) = length us"
  by (induction us arbitrary: k) simp_all

lemma nth_enumerate_entries:
  "i < length us \<Longrightarrow>
   enumerate_entries k us ! i =
     \<lparr>le_user_id = u_id (us ! i), le_username = u_username (us ! i),
      le_total_score = u_total_score (us ! i), le_rank = k + int i, le_rating = u_rating (us ! i),
      le_puzzles_solved = u_puzzles_solved (us ! i), le_win_streak = u_win_streak (us ! i)\<rparr>"
proof (induction us arbitrary: k i)
  case Nil
  then show ?case by simp
next
  case (Cons u us)
  show ?case
  proof (cases i)
    case 0
    then show ?thesis by simp
  next
    case (Suc j)
    then have "j < length us" using Cons.prems by simp
    from Cons.IH [OF this, of "k + 1"] show ?thesis using Suc by simp
  qed
qed

lemma query_page_nth:
  assumes "i < length (query_page skip limit us)"
  shows "query_page skip limit us ! i = order_by_total_score_desc us ! (skip + i)"
    and "skip + i < length (order_by_total_score_desc us)"
proof -
  from assms have lt: "i < length (order_by_total_score_desc us) - skip"
    by (simp add: query_page_def)
  then show b: "skip + i < length (order_by_total_score_desc us)" by linarith
  from assms have "i < limit" by (simp add: query_page_def)
  then have "query_page skip limit us ! i = drop skip (order_by_total_score_desc us) ! i"
    by (simp add: query_page_def)
  also have "\<dots> = order_by_total_score_desc us ! (skip + i)"
    using b by (intro nth_drop) linarith
  finally show "query_page skip limit us ! i = order_by_total_score_desc us ! (skip + i)" .
qed

lemma order_sorted: "sorted (map (\<lambda>u. - u_total_score u) (order_by_total_score_desc us))"
  by (simp add: order_by_total_score_desc_def)

lemma sorted_desc_later_le:
  assumes "sorted (map (\<lambda>u. - u_total_score u) xs)" and "j \<le> k" and "k < length xs"
  shows "u_total_score (xs ! k) \<le> u_total_score (xs ! j)"
proof -
  have "map (\<lambda>u. - u_total_score u) xs ! j \<le> map (\<lambda>u. - u_total_score u) xs ! k"
    using assms by (intro sorted_nth_mono) simp_all
  then show ?thesis using assms by simp
qed

lemma filter_greater_take:
  assumes s: "sorted (map (\<lambda>u. - u_total_score u) xs)" and j: "j < length xs"
  shows "filter (\<lambda>u. u_total_score (xs ! j) < u_total_score u) xs =
         filter (\<lambda>u. u_total_score (xs ! j) < u_total_score u) (take j xs)"
proof -
  let ?P = "\<lambda>u. u_total_score (xs ! j) < u_total_score u"
  have "\<not> ?P x" if "x \<in> set (drop j xs)" for x
  proof -
    from that obtain i where i: "i < length (drop j xs)" "x = drop j xs ! i"
      by (auto simp: in_set_conv_nth)
    then have "x = xs ! (j + i)" and "j + i < length xs" using j by simp_all
    then show ?thesis using sorted_desc_later_le [OF s, of j "j + i"] by simp
  qed
  then have e: "filter ?P (drop j xs) = []" by (simp add: filter_empty_conv)
  have "filter ?P xs = filter ?P (take j xs @ drop j xs)" by simp
  also have "\<dots> = filter ?P (take j xs) @ filter ?P (drop j xs)" by (rule filter_append)
  also have "\<dots> = filter ?P (take j xs)" unfolding e by simp
  finally show ?thesis .
qed

lemma greater_in_sorted_le:
  assumes s: "sorted (map (\<lambda>u. - u_total_score u) xs)" and j: "j < length xs"
  shows "length (filter (\<lambda>u. u_total_score (xs ! j) < u_total_score u) xs) \<le> j"
proof -
  let ?P = "\<lambda>u. u_total_score (xs ! j) < u_total_score u"
  have "length (filter ?P (take j xs)) \<le> length (take j xs)" by (rule length_filter_le)
  also have "length (take j xs) = j" using j by simp
  finally show ?thesis unfolding filter_greater_take [OF s j] .
qed

lemma greater_in_sorted_eq:
  assumes s: "sorted (map (\<lambda>u. - u_total_score u) xs)" and j: "j < length xs"
    and d: "distinct (map u_total_score xs)"
  shows "length (filter (\<lambda>u. u_total_score (xs ! j) < u_total_score u) xs) = j"
proof -
  let ?P = "\<lambda>u. u_total_score (xs ! j) < u_total_score u"
  have "?P x" if "x \<in> set (take j xs)" for x
  proof -
    from that obtain i where i: "i < length (take j xs)" "x = take j xs ! i"
      by (auto simp: in_set_conv_nth)
    then have x: "x = xs ! i" and ij: "i < j" by simp_all
    have le: "u_total_score (xs ! j) \<le> u_total_score (xs ! i)"
      using sorted_desc_later_le [OF s, of i j] ij j by simp
    have "(map u_total_score xs ! i = map u_total_score xs ! j) = (i = j)"
      using d ij j by (intro nth_eq_iff_index_eq) simp_all
    then have "u_total_score (xs ! i) \<noteq> u_total_score (xs ! j)" using ij j by simp
    then show ?thesis using le x by simp
  qed
  then have "filter ?P (take j xs) = take j xs" by (simp add: filter_id_conv)
  then show ?thesis unfolding filter_greater_take [OF s j] using j by simp
qed

lemma strictly_greater_order:
  "strictly_greater (order_by_total_score_desc us) s = strictly_greater us s"
  by (simp add: strictly_greater_def order_by_total_score_desc_def filter_sort)

lemma distinct_scores_order:
  "distinct (map u_total_score us) \<Longrightarrow> distinct (map u_total_score (order_by_total_score_desc us))"
  by (simp add: order_by_total_score_desc_def distinct_map)

lemma built_page_rank_is_position:
  assumes i: "i < length (enumerate_entries (int skip + 1) (query_page skip limit us))"
  shows "le_rank (enumerate_entries (int skip + 1) (query_page skip limit us) ! i) = int (skip + i) + 1 \<and>
         le_user_id (enumerate_entries (int skip + 1) (query_page skip limit us) ! i)
           = u_id (order_by_total_score_desc us ! (skip + i)) \<and>
         int (strictly_greater us
               (le_total_score (enumerate_entries (int skip + 1) (query_page skip limit us) ! i))) + 1
           \<le> le_rank (enumerate_entries (int skip + 1) (query_page skip limit us) ! i) \<and>
         (distinct (map u_total_score us) \<longrightarrow>
            le_rank (enumerate_entries (int skip + 1) (query_page skip limit us) ! i)
              = int (strictly_greater us
                  (le_total_score (enumerate_entries (int skip + 1) (query_page skip limit us) ! i))) + 1)"
proof -
  let ?xs = "order_by_total_score_desc us"
  let ?page = "query_page skip limit us"
  let ?b = "enumerate_entries (int skip + 1) ?page"
  have ip: "i < length ?page" using i by simp
  have e: "?b ! i =
     \<lparr>le_user_id = u_id (?page ! i), le_username = u_username (?page ! i),
      le_total_score = u_total_score (?page ! i), le_rank = (int skip + 1) + int i,
      le_rating = u_rating (?page ! i),
      le_puzzles_solved = u_puzzles_solved (?page ! i), le_win_streak = u_win_streak (?page ! i)\<rparr>"
    by (rule nth_enumerate_entries [OF ip])
  have pg: "?page ! i = ?xs ! (skip + i)" and j: "skip + i < length ?xs"
    using query_page_nth [OF ip] by simp_all
  have rank: "le_rank (?b ! i) = int (skip + i) + 1" unfolding e by simp
  have uid: "le_user_id (?b ! i) = u_id (?xs ! (skip + i))" unfolding e pg by simp
  have sc: "le_total_score (?b ! i) = u_total_score (?xs ! (skip + i))" unfolding e pg by simp
  have sg: "strictly_greater us (le_total_score (?b ! i))
      = length (filter (\<lambda>u. u_total_score (?xs ! (skip + i)) < u_total_score u) ?xs)"
  proof -
    have "strictly_greater us (le_total_score (?b ! i))
        = strictly_greater ?xs (le_total_score (?b ! i))"
      by (rule strictly_greater_order [symmetric])
    then show ?thesis unfolding sc by (simp only: strictly_greater_def)
  qed
  have le: "strictly_greater us (le_total_score (?b ! i)) \<le> skip + i"
    unfolding sg by (rule greater_in_sorted_le [OF order_sorted j])
  have eq: "strictly_greater us (le_total_score (?b ! i)) = skip + i"
    if "distinct (map u_total_score us)"
    unfolding sg by (rule greater_in_sorted_eq [OF order_sorted j distinct_scores_order [OF that]])
  have bound: "int (strictly_greater us (le_total_score (?b ! i))) + 1 \<le> le_rank (?b ! i)"
    using le unfolding rank by linarith
  have exact: "distinct (map u_total_score us) \<longrightarrow>
      le_rank (?b ! i) = int (strictly_greater us (le_total_score (?b ! i))) + 1"
    using eq unfolding rank by simp
  from rank uid bound exact show ?thesis by (intro conjI)
qed

text \<open>
  Claim C3, on the code: the table holds the scores 0, 50 and 200 and the store is empty.
  \<open>get_global_leaderboard(0, 100)\<close> builds the page and raises \<open>DataError\<close> at
  \<open>cache.set(cache_key, leaderboard, expire=300)\<close>, and \<open>get_user_leaderboard_data\<close> for
  user 3 raises \<open>AttributeError\<close>: neither the ranged read nor the rank query reports the
  rank 1 of user 3, or any rank.
\<close>

theorem ranged_read_and_rank_query_raise:
  "get_global_leaderboard 0 100 (table_session users_before) empty_redis 0
     = (Inl DataError, empty_redis) \<and>
   get_user_leaderboard_data 3 empty_redis 0 = Inl AttributeError"
  by (simp add: get_global_leaderboard_def key_0_100 CacheService_get_def live_def empty_redis_def
      recompute_raises_data_error table_session_def get_user_leaderboard_data_def
      get_user_leaderboard_data_with_def CacheService_get_sorted_set_rank_def)

subsection \<open>Invalidation\<close>

lemma delete_pattern_keeps_view:
  "CacheService_get (CacheService_delete r ''global_leaderboard:*'') now (global_cache_key skip limit)
   = CacheService_get r now (global_cache_key skip limit)"
  using global_key_not_pattern [of skip limit]
  by (simp add: CacheService_get_def CacheService_delete_def live_def)

text \<open>
  Claim C4, on the code: in any store that holds a view under the key of a page of the global
  leaderboard, \<open>update_leaderboard\<close> raises \<open>TypeError\<close> at its first statement and leaves
  the store as it was; \<open>cache.delete("global_leaderboard:*")\<close>, were it reached, deletes
  another key and leaves the view in place; and a read of the page, before or after that
  delete, is served the view from the cache, whatever the database holds by then.
\<close>

theorem update_leaderboard_leaves_cached_view:
  assumes "CacheService_get r now (global_cache_key skip limit) = Inr (Some v)"
    and "truthy_cached (Some v)"
  shows "update_leaderboard user_id points category m r wire now = (Inl TypeError, r, wire) \<and>
         CacheService_get (CacheService_delete r ''global_leaderboard:*'') now
           (global_cache_key skip limit) = Inr (Some v) \<and>
         get_global_leaderboard skip limit db r now = (Inr (FromCache v), r) \<and>
         get_global_leaderboard skip limit db (CacheService_delete r ''global_leaderboard:*'') now
           = (Inr (FromCache v), CacheService_delete r ''global_leaderboard:*'')"
proof -
  have g: "CacheService_get (CacheService_delete r ''global_leaderboard:*'') now
      (global_cache_key skip limit) = Inr (Some v)"
    unfolding delete_pattern_keeps_view by (rule assms(1))
  show ?thesis
    using update_leaderboard_raises [of user_id points category m r wire now] g
      hit_result [OF assms] hit_result [OF g assms(2)]
    by (intro conjI)
qed

theorem update_leaderboard_leaves_cached_view_witness:
  "CacheService_get cached_page_store 10 (global_cache_key 0 100)
     = Inr (Some (CText ''cy 200, bob 50, ann 0'')) \<and>
   truthy_cached (Some (CText ''cy 200, bob 50, ann 0'')) \<and>
   update_leaderboard 1 100 None example_registry cached_page_store empty_wire 10
     = (Inl TypeError, cached_page_store, empty_wire) \<and>
   get_global_leaderboard 0 100 (table_session users_before)
       (CacheService_delete cached_page_store ''global_leaderboard:*'') 10
     = (Inr (FromCache (CText ''cy 200, bob 50, ann 0'')),
        CacheService_delete cached_page_store ''global_leaderboard:*'')"
proof -
  have a: "CacheService_get cached_page_store 10 (global_cache_key 0 100)
     = Inr (Some (CText ''cy 200, bob 50, ann 0''))"
    by (simp add: key_0_100 cached_page_store_def CacheService_get_def live_def empty_redis_def)
  have t: "truthy_cached (Some (CText ''cy 200, bob 50, ann 0''))" by simp
  note u = update_leaderboard_leaves_cached_view [OF a t, of 1 100 None example_registry empty_wire
      "table_session users_before"]
  from u have 1: "update_leaderboard 1 100 None example_registry cached_page_store empty_wire 10
     = (Inl TypeError, cached_page_store, empty_wire)" by (rule conjunct1)
  from u have 2: "get_global_leaderboard 0 100 (table_session users_before)
       (CacheService_delete cached_page_store ''global_leaderboard:*'') 10
     = (Inr (FromCache (CText ''cy 200, bob 50, ann 0'')),
        CacheService_delete cached_page_store ''global_leaderboard:*'')"
    by (elim conjE)
  from a t 1 2 show ?thesis by (intro conjI)
qed

section \<open>Properties of submitting an attempt\<close>

lemma submit_attempt_with_commit_fails:
  "\<exists>e tasks. submit_attempt_with count_call validation False puzzle_id solution time_taken
      current_user db = (Inl e, tasks, db)"
proof (cases "find (\<lambda>p. p_id p = puzzle_id) (db_puzzles db)")
  case None
  then show ?thesis by (simp add: submit_attempt_with_def)
next
  case (Some puzzle)
  show ?thesis
  proof (cases validation)
    case (Inl e)
    then show ?thesis using Some by (simp add: submit_attempt_with_def)
  next
    case (Inr is_correct)
    show ?thesis
    proof (cases is_correct)
      case False
      then show ?thesis using Some Inr by (simp add: submit_attempt_with_def Let_def)
    next
      case True
      show ?thesis
      proof (cases "count_call (filter (\<lambda>a. a_puzzle_id a = puzzle_id) (db_attempts db))")
        case (Inl e)
        then show ?thesis using Some Inr True by (simp add: submit_attempt_with_def Let_def)
      next
        case (Inr n)
        then show ?thesis using Some \<open>validation = Inr is_correct\<close> True
          by (simp add: submit_attempt_with_def Let_def)
      qed
    qed
  qed
qed

lemma attempts_count_raises: "attempts_count attempts = Inl TypeError"
  by (simp add: attempts_count_def list_count_def)

text \<open>
  In the code, a correct attempt raises \<open>TypeError\<close> at \<open>puzzle.attempts.count()\<close>, before
  the task is added and before the commit.
\<close>

lemma correct_attempt_raises:
  assumes "find (\<lambda>p. p_id p = puzzle_id) (db_puzzles db) = Some puzzle"
  shows "submit_attempt (Inr True) commit_ok puzzle_id solution time_taken current_user db
         = (Inl TypeError, [], db)"
  using assms by (simp add: submit_attempt_def submit_attempt_with_def attempts_count_raises Let_def)

text \<open>
  Where the count is answered, the handler has added the leaderboard task when the commit
  fails; and after a commit that succeeds the task is run and the user's stored total has
  the puzzle's points.
\<close>

lemma task_scheduled_before_commit:
  "submit_attempt_with (\<lambda>attempts. Inr (length attempts)) (Inr True) False 5 ''42'' None 1 example_db
     = (Inl CommitError, [(1, 100)], example_db)"
  by (simp add: submit_attempt_with_def example_db_def Let_def)

lemma tasks_run_after_return:
  "w_tasks_run (snd (post_attempt_with (\<lambda>attempts. Inr (length attempts)) (Inr True) True 5 ''42''
     None 1 example_world 0)) = [(1, 100)] \<and>
   map u_total_score (db_users (w_db (snd (post_attempt_with (\<lambda>attempts. Inr (length attempts))
     (Inr True) True 5 ''42'' None 1 example_world 0)))) = [100, 50, 200]"
  by (simp add: post_attempt_with_def submit_attempt_with_def example_world_def example_db_def
      Let_def users_before_def mk_user_def puzzles_update_leaderboard_def call_increment_def)

text \<open>
  Claim C2. When \<open>db.commit()\<close> fails, the request ends with an exception for every
  input, and the database, the store (the sorted set and every cached view), what the
  WebSockets have been sent and the list of tasks that were started are as before the
  request: a leaderboard task that the handler had added is not run. This holds however
  \<open>puzzle.attempts.count()\<close> is answered, and so for the code, where that call raises.
\<close>

theorem commit_failure_aborts:
  "(\<exists>e. post_attempt_with count_call validation False puzzle_id solution time_taken current_user
          w now = (Inl e, w)) \<and>
   (\<exists>e. post_attempt validation False puzzle_id solution time_taken current_user w now = (Inl e, w))"
proof -
  have "\<exists>e. post_attempt_with c validation False puzzle_id solution time_taken current_user
          w now = (Inl e, w)" for c
  proof -
    obtain e tasks where
      "submit_attempt_with c validation False puzzle_id solution time_taken current_user (w_db w)
         = (Inl e, tasks, w_db w)"
      using submit_attempt_with_commit_fails by blast
    then have "post_attempt_with c validation False puzzle_id solution time_taken current_user w now
        = (Inl e, w)"
      by (simp add: post_attempt_with_def)
    then show ?thesis ..
  qed
  then show ?thesis unfolding post_attempt_def by (intro conjI)
qed

section \<open>Properties of concurrent readers\<close>

lemma run_schedule_append:
  "run_schedule skip limit db now (xs @ ys) s
     = run_schedule skip limit db now ys (run_schedule skip limit db now xs s)"
  by (induction xs arbitrary: s) simp_all

lemma map_upt_update:
  "j < n \<Longrightarrow> (map f [0..<n])[j := v] = map (f(j := v)) [0..<n]"
  by (rule nth_equalityI) (simp_all add: nth_list_update)

lemma filter_upt_flip:
  assumes "j < n" and "\<not> P j"
  shows "length (filter (P(j := True)) [0..<n]) = Suc (length (filter P [0..<n]))"
proof -
  have "[0..<n] = [0..<j] @ [j..<n]"
    using upt_add_eq_append [of 0 j "n - j"] assms(1) by simp
  also have "[j..<n] = j # [Suc j..<n]"
    using assms(1) by (rule upt_conv_Cons)
  finally have split: "[0..<n] = [0..<j] @ j # [Suc j..<n]" .
  have a: "filter (P(j := True)) [0..<j] = filter P [0..<j]"
    by (rule filter_cong) auto
  have b: "filter (P(j := True)) [Suc j..<n] = filter P [Suc j..<n]"
    by (rule filter_cong) auto
  have "length (filter (P(j := True)) [0..<n])
      = length (filter (P(j := True)) ([0..<j] @ j # [Suc j..<n]))"
    using split by simp
  also have "\<dots> = length (filter P [0..<j]) + Suc (length (filter P [Suc j..<n]))"
    by (simp add: a b)
  also have "\<dots> = Suc (length (filter P ([0..<j] @ j # [Suc j..<n])))"
    using assms(2) by simp
  also have "\<dots> = Suc (length (filter P [0..<n]))"
    using split by simp
  finally show ?thesis .
qed

text \<open>One caller alone, running its two steps, is the handler.\<close>

lemma single_reader_is_handler:
  "rd_store (run_schedule skip limit db now [0, 0] (initial_readers 1 r))
     = snd (get_global_leaderboard skip limit db r now) \<and>
   rd_callers (run_schedule skip limit db now [0, 0] (initial_readers 1 r))
     = [case fst (get_global_leaderboard skip limit db r now) of Inl e \<Rightarrow> Failed e | Inr v \<Rightarrow> Done v]"
proof (cases "CacheService_get r now (global_cache_key skip limit)")
  case (Inl e)
  then show ?thesis
    by (simp add: initial_readers_def reader_step_def get_global_leaderboard_def)
next
  case (Inr c)
  show ?thesis
  proof (cases "truthy_cached c")
    case True
    then show ?thesis using Inr
      by (simp add: initial_readers_def reader_step_def get_global_leaderboard_def)
  next
    case False
    obtain e where "leaderboard_recompute skip limit db r now = (Inl e, r)"
      using recompute_raises by blast
    then show ?thesis using Inr False
      by (simp add: initial_readers_def reader_step_def get_global_leaderboard_def)
  qed
qed

text \<open>
  The state after any schedule, when the cache misses at the start: nothing is stored, so
  every read misses, and every caller that takes its second step recomputes.
\<close>

lemma all_miss_state:
  assumes miss: "CacheService_get r now (global_cache_key skip limit) = Inr c"
    and falsy: "\<not> truthy_cached c"
    and rec: "leaderboard_recompute skip limit db r now = (Inl e, r)"
  shows "run_schedule skip limit db now sched (initial_readers n r) =
    \<lparr>rd_store = r,
     rd_callers = map (\<lambda>i. phase e (count_list sched i)) [0..<n],
     rd_recomputations = length (filter (\<lambda>i. 2 \<le> count_list sched i) [0..<n])\<rparr>"
proof (induction sched rule: rev_induct)
  case Nil
  show ?case by (simp add: initial_readers_def phase_def map_replicate_const)
next
  case (snoc j xs)
  let ?f = "\<lambda>i. phase e (count_list xs i)"
  let ?P = "\<lambda>i. 2 \<le> count_list xs i"
  let ?s = "\<lparr>rd_store = r, rd_callers = map ?f [0..<n],
            rd_recomputations = length (filter ?P [0..<n])\<rparr>"
  have run: "run_schedule skip limit db now (xs @ [j]) (initial_readers n r)
      = reader_step skip limit db now j ?s"
    by (simp add: run_schedule_append snoc.IH)
  show ?case
  proof (cases "j < n")
    case False
    have f: "map (\<lambda>i. phase e (count_list (xs @ [j]) i)) [0..<n] = map ?f [0..<n]"
      using False by (intro map_cong) auto
    have p: "filter (\<lambda>i. 2 \<le> count_list (xs @ [j]) i) [0..<n] = filter ?P [0..<n]"
      using False by (intro filter_cong) auto
    have "reader_step skip limit db now j ?s = ?s"
      using False by (simp add: reader_step_def)
    then show ?thesis unfolding run f p .
  next
    case True
    have f: "(\<lambda>i. phase e (count_list (xs @ [j]) i)) = ?f(j := phase e (Suc (count_list xs j)))"
      by (auto simp: fun_eq_iff)
    have p: "(\<lambda>i. 2 \<le> count_list (xs @ [j]) i) = ?P(j := 2 \<le> Suc (count_list xs j))"
      by (auto simp: fun_eq_iff)
    have at: "map ?f [0..<n] ! j = phase e (count_list xs j)"
      using True by simp
    consider (zero) "count_list xs j = 0" | (one) "count_list xs j = 1" | (more) "2 \<le> count_list xs j"
      by linarith
    then show ?thesis
    proof cases
      case zero
      have "?P(j := 2 \<le> Suc (count_list xs j)) = ?P"
        using zero by (auto simp: fun_eq_iff)
      moreover have "reader_step skip limit db now j ?s
          = ?s\<lparr>rd_callers := (map ?f [0..<n])[j := Missed]\<rparr>"
        using True zero miss falsy by (simp add: reader_step_def phase_def)
      ultimately show ?thesis
        unfolding run f p using True zero by (simp add: map_upt_update phase_def)
    next
      case one
      have np: "\<not> ?P j" using one by simp
      have "?P(j := 2 \<le> Suc (count_list xs j)) = ?P(j := True)"
        using one by (auto simp: fun_eq_iff)
      moreover have "reader_step skip limit db now j ?s
          = \<lparr>rd_store = r, rd_callers = (map ?f [0..<n])[j := Failed e],
             rd_recomputations = Suc (length (filter ?P [0..<n]))\<rparr>"
        using True one rec by (simp add: reader_step_def phase_def)
      ultimately show ?thesis
        unfolding run f p using True one filter_upt_flip [of j n ?P, OF True np]
        by (simp add: map_upt_update phase_def)
    next
      case more
      have "?P(j := 2 \<le> Suc (count_list xs j)) = ?P"
        using more by (auto simp: fun_eq_iff)
      moreover have "?f(j := phase e (Suc (count_list xs j))) = ?f"
        using more by (auto simp: fun_eq_iff phase_def)
      moreover have "reader_step skip limit db now j ?s = ?s"
        using True more by (simp add: reader_step_def phase_def)
      ultimately show ?thesis unfolding run f p by simp
    qed
  qed
qed

lemma complete_example: "complete 2 [0, 1, 0, 1]"
  by (simp add: complete_def numeral_2_eq_2)

text \<open>
  Claim C6, as stated, fails: two callers read the empty cache one after the other and
  both recompute.
\<close>

theorem single_flight_counterexample:
  "rd_recomputations
     (run_schedule 0 100 (table_session users_before) 0 [0, 1, 0, 1] (initial_readers 2 empty_redis)) = 2 \<and>
   rd_callers
     (run_schedule 0 100 (table_session users_before) 0 [0, 1, 0, 1] (initial_readers 2 empty_redis))
     = [Failed DataError, Failed DataError]"
  by (simp add: initial_readers_def reader_step_def key_0_100 CacheService_get_def live_def
      empty_redis_def recompute_raises_data_error table_session_def numeral_2_eq_2)

text \<open>
  Claim C6, amended. There is no single flight: when \<open>n\<close> callers of the same page start on
  a miss, then in every schedule in which each of them runs both of its steps, each of them
  recomputes, so \<open>n\<close> recomputations run. None of them stores a page: each ends with the
  same exception, and the store is as it was.
\<close>

theorem concurrent_misses_all_recompute:
  assumes miss: "CacheService_get r now (global_cache_key skip limit) = Inr c"
    and falsy: "\<not> truthy_cached c"
    and all: "complete n sched"
  shows "rd_recomputations (run_schedule skip limit db now sched (initial_readers n r)) = n \<and>
         (\<exists>e. rd_callers (run_schedule skip limit db now sched (initial_readers n r))
                = replicate n (Failed e)) \<and>
         rd_store (run_schedule skip limit db now sched (initial_readers n r)) = r"
proof -
  obtain e where rec: "leaderboard_recompute skip limit db r now = (Inl e, r)"
    using recompute_raises by blast
  note st = all_miss_state [OF miss falsy rec, of sched n]
  have two: "\<And>i. i \<in> set [0..<n] \<Longrightarrow> 2 \<le> count_list sched i"
    using all by (simp add: complete_def list_all_iff)
  have "filter (\<lambda>i. 2 \<le> count_list sched i) [0..<n] = [0..<n]"
    using two by (simp add: filter_id_conv)
  then have n: "rd_recomputations (run_schedule skip limit db now sched (initial_readers n r)) = n"
    unfolding st by simp
  have "map (\<lambda>i. phase e (count_list sched i)) [0..<n] = map (\<lambda>i. Failed e) [0..<n]"
  proof (rule map_cong [OF refl])
    fix i assume "i \<in> set [0..<n]"
    from two [OF this] show "phase e (count_list sched i) = Failed e"
      by (simp add: phase_def)
  qed
  then have c: "rd_callers (run_schedule skip limit db now sched (initial_readers n r))
      = replicate n (Failed e)"
    unfolding st by (simp add: map_replicate_const)
  have s: "rd_store (run_schedule skip limit db now sched (initial_readers n r)) = r"
    unfolding st by simp
  from n c s show ?thesis by blast
qed

theorem concurrent_misses_all_recompute_witness:
  "CacheService_get empty_redis 0 (global_cache_key 0 100) = Inr None \<and>
   \<not> truthy_cached None \<and>
   complete 3 [0, 1, 2, 2, 0, 1] \<and>
   rd_recomputations
     (run_schedule 0 100 (table_session users_before) 0 [0, 1, 2, 2, 0, 1]
        (initial_readers 3 empty_redis)) = 3"
proof -
  have a: "CacheService_get empty_redis 0 (global_cache_key 0 100) = Inr None"
    by (simp add: CacheService_get_def live_def empty_redis_def)
  have f: "\<not> truthy_cached None" by simp
  have c: "complete 3 [0, 1, 2, 2, 0, 1]"
    by (simp add: complete_def numeral_3_eq_3)
  from concurrent_misses_all_recompute [OF a f c, of "table_session users_before"]
  have "rd_recomputations
     (run_schedule 0 100 (table_session users_before) 0 [0, 1, 2, 2, 0, 1]
        (initial_readers 3 empty_redis)) = 3"
    by (rule conjunct1)
  with a f c show ?thesis by (intro conjI)
qed

end
